theory Spec2Isabelle
  imports Main "HOL-Library.Char_ord" "HOL-Library.List_Lexorder" "HOL-Library.Multiset"
begin

section \<open>The tweak configuration generator (scripts/analyzer.py)\<close>

text \<open>
  The script resolves, for every repository reference of a list, a configuration record
  from static tables, orders the records by their dependencies and collects the header
  packages they need.

  A Python \<open>str\<close> is modelled by the bytes of its UTF-8 encoding, a \<^typ>\<open>string\<close>.
  The script splits strings at \<open>/\<close>, deletes \<open>-\<close>, \<open>_\<close> and \<open>.\<close>, tests them for
  emptiness and equality and sorts them: on the encoding these act as on the code points,
  since an ASCII byte occurs in an encoding only as the ASCII character itself, and the
  byte-wise lexicographic order of encodings is the code point order of \<open>str\<close>. The one
  operation that reads the Unicode tables of the Python runtime is \<open>str.lower\<close>: it is a
  parameter \<open>lower\<close> of every function that calls it, and no property below assumes
  anything of it, except the one of normalisation, which names what it needs.
\<close>

subsection \<open>Static tables\<close>

text \<open>
  The module-level dictionaries and sets. A dictionary is a map, a set of identifiers a
  set. The functions below read them through a record of tables, so that the properties
  hold for any content of the tables ("add more as needed"), and \<open>static_tables\<close> is
  the content the source has.
\<close>

record tables =
  KNOWN_DEPENDENCIES :: "string \<rightharpoonup> string list"
  HEADER_DEPENDENCIES :: "string \<rightharpoonup> string list"
  HEADER_REPOS :: "string \<rightharpoonup> string"
  HAS_RELEASES :: "string set"
  SPECIAL_BUILD_CMDS :: "string \<rightharpoonup> string"
  APPEX_REPOS :: "string set"
  SKIPPED_TWEAKS :: "string \<rightharpoonup> string"
  DEB_FILTERS :: "string \<rightharpoonup> (string \<times> string) list"
  PRE_BUILD_CMDS :: "string \<rightharpoonup> string"

definition DEFAULT_BUILD_CMD :: string where
  "DEFAULT_BUILD_CMD = ''make clean package DEBUG=0 FINALPACKAGE=1''"

definition static_tables :: tables where
  "static_tables = \<lparr>
     KNOWN_DEPENDENCIES = [
       ''youpip'' \<mapsto> [''ytvideooverlay''],
       ''youtimestamp'' \<mapsto> [''ytvideooverlay''],
       ''youquality'' \<mapsto> [''ytvideooverlay''],
       ''youmute'' \<mapsto> [''ytvideooverlay''],
       ''youspeed'' \<mapsto> [''ytvideooverlay'']],
     HEADER_DEPENDENCIES = [
       ''ytlite'' \<mapsto> [''YouTubeHeader'', ''PSHeader''],
       ''youtimestamp'' \<mapsto> [''YouTubeHeader''],
       ''youpip'' \<mapsto> [''YouTubeHeader''],
       ''youquality'' \<mapsto> [''YouTubeHeader''],
       ''youmute'' \<mapsto> [''YouTubeHeader''],
       ''youspeed'' \<mapsto> [''YouTubeHeader''],
       ''ytvideooverlay'' \<mapsto> [''YouTubeHeader''],
       ''returnyoutubedislikes'' \<mapsto> [''YouTubeHeader''],
       ''ytuhd'' \<mapsto> [''YouTubeHeader''],
       ''youtubeextensions'' \<mapsto> [''YouTubeHeader'', ''PSHeader''],
       ''openyoutubesafariextension'' \<mapsto> [''YouTubeHeader''],
       ''donteatmycontent'' \<mapsto> [''YouTubeHeader'', ''YTHeaders''],
       ''ytnohovercards'' \<mapsto> [''YouTubeHeader''],
       ''ytab'' \<mapsto> [''YouTubeHeader''],
       ''ytnoshorts'' \<mapsto> [''YouTubeHeader''],
       ''ytclassicvideoquality'' \<mapsto> [''YouTubeHeader''],
       ''ytnocommunityguidelinesendscreen'' \<mapsto> [''YouTubeHeader'']],
     HEADER_REPOS = [
       ''YouTubeHeader'' \<mapsto> ''https://github.com/PoomSmart/YouTubeHeader.git'',
       ''PSHeader'' \<mapsto> ''https://github.com/PoomSmart/PSHeader.git'',
       ''YTHeaders'' \<mapsto> ''https://github.com/therealFoxster/YTHeaders.git''],
     HAS_RELEASES = {''ytlite'', ''returnyoutubedislikes''},
     SPECIAL_BUILD_CMDS = [
       ''ytuhd'' \<mapsto> ''make clean package DEBUG=0 FINALPACKAGE=1 SIDELOAD=1''],
     APPEX_REPOS = {''youtubeextensions'', ''openyoutubesafariextension''},
     SKIPPED_TWEAKS = [
       ''youtimestamp'' \<mapsto>
         ''incompatible with current YouTubeHeader (tintImage:color: and createButton:accessibilityLabel:selector: removed)''],
     DEB_FILTERS = [
       ''ytlite'' \<mapsto> [(''deb_filter'', ''iphoneos-arm64''), (''deb_exclude'', ''roothide'')],
       ''returnyoutubedislikes'' \<mapsto> [(''deb_exclude'', ''roothide'')]],
     PRE_BUILD_CMDS = [
       ''youtimestamp'' \<mapsto>
         ''sed -i '' @ [CHR 0x27, CHR 0x27, CHR '' '', CHR 0x27] @
         ''s/initYTVideoOverlay(TweakKey);/initYTVideoOverlay(TweakKey, nil);/'' @
         [CHR 0x27] @ '' Tweak.x'']
   \<rparr>"

subsection \<open>Identifiers\<close>

text \<open>
  \<open>repo.split("/")\<close>: the pieces between the slashes, at least one, the last one being
  what follows the last slash.
\<close>

fun split :: "char \<Rightarrow> string \<Rightarrow> string list" where
  "split sep [] = [[]]"
| "split sep (c # cs) =
     (if c = sep then [] # split sep cs
      else (case split sep cs of
              [] \<Rightarrow> [[c]]
            | piece # pieces \<Rightarrow> (c # piece) # pieces))"

text \<open>\<open>s.replace(c, "")\<close> for a one-character \<open>c\<close> deletes every occurrence of it.\<close>

definition replace_empty :: "char \<Rightarrow> string \<Rightarrow> string" where
  "replace_empty c s = filter (\<lambda>x. x \<noteq> c) s"

text \<open>
  \<open>normalize_id\<close>: the last piece of the reference, without separators, lower-cased by
  \<open>str.lower\<close>.
\<close>

definition normalize_id :: "(string \<Rightarrow> string) \<Rightarrow> string \<Rightarrow> string" where
  "normalize_id lower repo_ref =
     (let name = last (split CHR ''/'' repo_ref)
      in lower (replace_empty CHR ''.'' (replace_empty CHR ''_'' (replace_empty CHR ''-'' name))))"

definition make_id :: "(string \<Rightarrow> string) \<Rightarrow> string \<Rightarrow> string" where
  "make_id lower repo_ref = normalize_id lower repo_ref"

subsection \<open>Configuration records\<close>

text \<open>
  The dictionary \<open>analyze_tweak\<close> returns. The keys \<open>id\<close>, \<open>repo\<close> and \<open>fetch\<close> are
  always there; every other key is optional, and \<open>None\<close> is the absent key.
\<close>

record config =
  cfg_id :: string
  repo :: string
  fetch :: string
  build_cmd :: "string option"
  deb_filter :: "string option"
  deb_exclude :: "string option"
  depends_on :: "string list option"
  pre_build_cmd :: "string option"
  headers :: "string list option"

text \<open>
  \<open>analyze_tweak\<close> prints progress lines and raises nowhere: every table is read with
  \<open>in\<close> or \<open>.get\<close>, and \<open>deb_opts[...]\<close> only under \<open>in deb_opts\<close>. The model is the
  returned dictionary. A Python condition \<open>if x:\<close> on a list, dictionary or string is
  \<open>x \<noteq> []\<close>; on the result of \<open>.get\<close> without default it also excludes \<open>None\<close>.
\<close>

definition analyze_tweak ::
  "(string \<Rightarrow> string) \<Rightarrow> tables \<Rightarrow> string \<Rightarrow> (string \<rightharpoonup> string) \<Rightarrow> config" where
  "analyze_tweak lower T repo_ref all_tweaks =
     (let tweak_id = make_id lower repo_ref;
          fetch_method =
            (if tweak_id \<in> HAS_RELEASES T then ''release''
             else if tweak_id \<in> APPEX_REPOS T then ''appex''
             else ''build'');
          build_command =
            (case SPECIAL_BUILD_CMDS T tweak_id of Some c \<Rightarrow> c | None \<Rightarrow> DEFAULT_BUILD_CMD);
          deps = (case KNOWN_DEPENDENCIES T tweak_id of Some ds \<Rightarrow> ds | None \<Rightarrow> []);
          hdrs = (case HEADER_DEPENDENCIES T tweak_id of
                    Some hs \<Rightarrow> hs | None \<Rightarrow> [''YouTubeHeader'']);
          deb_opts = (case DEB_FILTERS T tweak_id of Some opts \<Rightarrow> opts | None \<Rightarrow> []);
          pre_build = PRE_BUILD_CMDS T tweak_id
      in \<lparr> cfg_id = tweak_id,
           repo = repo_ref,
           fetch = fetch_method,
           build_cmd = (if fetch_method = ''build'' then Some build_command else None),
           deb_filter =
             (if fetch_method = ''release'' \<and> deb_opts \<noteq> []
              then map_of deb_opts ''deb_filter'' else None),
           deb_exclude =
             (if fetch_method = ''release'' \<and> deb_opts \<noteq> []
              then map_of deb_opts ''deb_exclude'' else None),
           depends_on = (if deps \<noteq> [] then Some deps else None),
           pre_build_cmd =
             (case pre_build of
                Some c \<Rightarrow> if c \<noteq> [] then Some c else None
              | None \<Rightarrow> None),
           headers = (if hdrs \<noteq> [] then Some hdrs else None) \<rparr>)"

subsection \<open>Build order\<close>

text \<open>
  \<open>graph\<close> maps every record identifier to the set of its \<open>depends_on\<close> entries; a later
  record with the same identifier overwrites an earlier one. \<open>all_ids\<close> is the set of
  record identifiers, which is the key set of \<open>graph\<close>.
\<close>

definition deps_of :: "config \<Rightarrow> string list" where
  "deps_of cfg = (case depends_on cfg of Some ds \<Rightarrow> ds | None \<Rightarrow> [])"

definition graph :: "config list \<Rightarrow> (string \<rightharpoonup> string set)" where
  "graph configs = fold (\<lambda>cfg g. g(cfg_id cfg \<mapsto> set (deps_of cfg))) configs Map.empty"

definition all_ids :: "config list \<Rightarrow> string set" where
  "all_ids configs = set (map cfg_id configs)"

text \<open>\<open>graph.get(other, set())\<close>.\<close>

definition graph_get :: "(string \<rightharpoonup> string set) \<Rightarrow> string \<Rightarrow> string set" where
  "graph_get g node = (case g node of Some ds \<Rightarrow> ds | None \<Rightarrow> {})"

text \<open>
  The body of \<open>for other in all_ids\<close>, over the identifiers in the order the set is
  iterated: the in-degree of every identifier that depends on \<open>node\<close> goes down by one,
  and an identifier whose in-degree becomes 0 is appended to the queue. In-degrees are
  Python integers.
\<close>

fun for_others ::
  "(string \<rightharpoonup> string set) \<Rightarrow> string \<Rightarrow> string list \<Rightarrow> (string \<Rightarrow> int) \<Rightarrow> string list
     \<Rightarrow> (string \<Rightarrow> int) \<times> string list" where
  "for_others g node [] in_degree queue = (in_degree, queue)"
| "for_others g node (other # rest) in_degree queue =
     (if node \<in> graph_get g other
      then let in_degree' = in_degree(other := in_degree other - 1)
           in for_others g node rest in_degree'
                (if in_degree' other = 0 then queue @ [other] else queue)
      else for_others g node rest in_degree queue)"

text \<open>
  The \<open>while queue\<close> loop: sort the queue, pop its first element, append it to the
  result, run the inner loop. It ends on every state: an identifier joins the queue
  only when its in-degree goes from 1 to 0, and in-degrees never grow.
\<close>

lemma for_others_measure:
  "finite S \<Longrightarrow> set os \<subseteq> S \<Longrightarrow> for_others g node os d q = (d', q') \<Longrightarrow>
   length q' + card {x \<in> S. 1 \<le> d' x} \<le> length q + card {x \<in> S. 1 \<le> d x}"
proof (induction os arbitrary: d q)
  case Nil
  then show ?case by simp
next
  case (Cons other rest)
  show ?case
  proof (cases "node \<in> graph_get g other")
    case False
    with Cons show ?thesis by simp
  next
    case True
    let ?d1 = "d(other := d other - 1)"
    let ?q1 = "if ?d1 other = 0 then q @ [other] else q"
    from Cons.prems True have run: "for_others g node rest ?d1 ?q1 = (d', q')"
      by (simp add: Let_def)
    have fin: "finite {x \<in> S. 1 \<le> d x}" using Cons.prems(1) by simp
    have step: "length ?q1 + card {x \<in> S. 1 \<le> ?d1 x} \<le> length q + card {x \<in> S. 1 \<le> d x}"
    proof (cases "?d1 other = 0")
      case True
      then have "{x \<in> S. 1 \<le> ?d1 x} = {x \<in> S. 1 \<le> d x} - {other}" by auto
      moreover have "other \<in> {x \<in> S. 1 \<le> d x}" using True Cons.prems(2) by auto
      ultimately have "Suc (card {x \<in> S. 1 \<le> ?d1 x}) = card {x \<in> S. 1 \<le> d x}"
        using fin by (metis card_Suc_Diff1)
      with True show ?thesis by simp
    next
      case False
      have "{x \<in> S. 1 \<le> ?d1 x} \<subseteq> {x \<in> S. 1 \<le> d x}" by auto
      then have "card {x \<in> S. 1 \<le> ?d1 x} \<le> card {x \<in> S. 1 \<le> d x}"
        using fin by (rule card_mono[rotated])
      with False show ?thesis by simp
    qed
    from Cons.prems(2) have "set rest \<subseteq> S" by simp
    from Cons.IH[OF Cons.prems(1) this run] step show ?thesis by linarith
  qed
qed

function kahn_loop ::
  "(string \<rightharpoonup> string set) \<Rightarrow> string list \<Rightarrow> (string \<Rightarrow> int) \<Rightarrow> string list \<Rightarrow> string list
     \<Rightarrow> string list" where
  "kahn_loop g ids in_degree queue result =
     (if queue = [] then result
      else let sorted_queue = sort queue;
               node = hd sorted_queue;
               state = for_others g node ids in_degree (tl sorted_queue)
           in kahn_loop g ids (fst state) (snd state) (result @ [node]))"
  by pat_completeness auto
termination
proof (relation "measure (\<lambda>(g, ids, d, queue, result).
                   length queue + card {x \<in> set ids. 1 \<le> d x})")
  show "wf (measure (\<lambda>(g, ids, d, queue, result).
                   length queue + card {x \<in> set ids. 1 \<le> d x}))" by simp
next
  fix g :: "string \<rightharpoonup> string set" and ids d queue and result :: "string list"
    and sq node state
  assume ne: "queue \<noteq> []" and sq: "sq = sort queue" and "node = hd sq"
    and st: "state = for_others g node ids d (tl sq)"
  from st have "for_others g node ids d (tl sq) = (fst state, snd state)" by simp
  from for_others_measure[OF _ _ this, of "set ids"]
  have "length (snd state) + card {x \<in> set ids. 1 \<le> fst state x}
          \<le> length (tl sq) + card {x \<in> set ids. 1 \<le> d x}" by simp
  moreover have "length (tl sq) < length queue" using ne sq by simp
  ultimately show "((g, ids, fst state, snd state, result @ [node]), (g, ids, d, queue, result))
       \<in> measure (\<lambda>(g, ids, d, queue, result). length queue + card {x \<in> set ids. 1 \<le> d x})"
    by simp
qed

text \<open>
  What the script prints that a property below speaks of: the report of a skipped
  reference with its reason, and the warning of \<open>topological_sort\<close>.
\<close>

datatype message = Skipping string string | CircularDependencyWarning

text \<open>
  \<open>topological_sort\<close>. Python iterates the set \<open>all_ids\<close> in an order that depends on
  string hashing; \<open>iter\<close> is that order, as a function of the identifiers in the order
  they were added. \<open>set_iteration iter\<close> says what Python guarantees of it: every
  element once. \<open>graph[node]\<close> cannot raise, since the keys of \<open>graph\<close> are \<open>all_ids\<close>
  (\<open>dom_graph\<close> below), so it is read with \<open>graph_get\<close>. The function returns the
  printed messages and the order.
\<close>

definition set_iteration :: "(string list \<Rightarrow> string list) \<Rightarrow> bool" where
  "set_iteration iter = (\<forall>xs. distinct (iter xs) \<and> set (iter xs) = set xs)"

definition topological_sort ::
  "(string list \<Rightarrow> string list) \<Rightarrow> config list \<Rightarrow> message list \<times> string list" where
  "topological_sort iter configs =
     (let g = graph configs;
          ids = iter (map cfg_id configs);
          in_degree = (\<lambda>node. int (card (graph_get g node)));
          queue = filter (\<lambda>node. in_degree node = 0) ids;
          result = kahn_loop g ids in_degree queue []
      in if length result \<noteq> card (all_ids configs)
         then ([CircularDependencyWarning], sorted_list_of_set (all_ids configs))
         else ([], result))"

subsection \<open>Headers\<close>

definition headers_of :: "config \<Rightarrow> string list" where
  "headers_of cfg = (case headers cfg of Some hs \<Rightarrow> hs | None \<Rightarrow> [])"

definition collect_all_headers :: "config list \<Rightarrow> string list" where
  "collect_all_headers configs =
     sorted_list_of_set (fold (\<lambda>cfg all_headers. all_headers \<union> set (headers_of cfg)) configs {})"

text \<open>
  The loop of \<open>main\<close> that fills \<open>header_config\<close>: a dictionary, in insertion order, of
  the required headers that the registry knows.
\<close>

definition header_config :: "tables \<Rightarrow> string list \<Rightarrow> (string \<times> string) list" where
  "header_config T required_headers =
     concat (map (\<lambda>header. case HEADER_REPOS T header of
                              Some location \<Rightarrow> [(header, location)]
                            | None \<Rightarrow> [])
                 required_headers)"

subsection \<open>The script\<close>

text \<open>
  \<open>main\<close> reads \<open>config.json\<close> and rewrites it. Its input is the file: \<open>None\<close> when it
  does not exist, otherwise the value of its \<open>tweakslist\<close> key (\<open>None\<close> when the key is
  absent, which \<open>.get\<close> turns into the empty list). It ends in \<open>sys.exit(1)\<close> or writes
  the output document; the messages are those it printed on the way.
\<close>

datatype failure = ConfigNotFound | NoTweaks

record metadata =
  total_tweaks :: nat
  successfully_analyzed :: nat
  required_headers :: "string list"

record output_document =
  out_tweakslist :: "string list"
  out_config :: "config list"
  out_build_order :: "string list"
  out_headers :: "(string \<times> string) list"
  out_metadata :: metadata

definition active_tweakslist ::
  "(string \<Rightarrow> string) \<Rightarrow> tables \<Rightarrow> string list \<Rightarrow> string list" where
  "active_tweakslist lower T tweakslist =
     filter (\<lambda>repo_ref. SKIPPED_TWEAKS T (make_id lower repo_ref) = None) tweakslist"

definition skipped ::
  "(string \<Rightarrow> string) \<Rightarrow> tables \<Rightarrow> string list \<Rightarrow> (string \<times> string) list" where
  "skipped lower T tweakslist =
     concat (map (\<lambda>repo_ref. case SKIPPED_TWEAKS T (make_id lower repo_ref) of
                                Some reason \<Rightarrow> [(repo_ref, reason)]
                              | None \<Rightarrow> [])
                 tweakslist)"

text \<open>
  The loop that resolves every active reference. Its \<open>except\<close> branch (exit 1) is not
  reachable: \<open>analyze_tweak\<close> raises nothing on a string.
\<close>

definition all_tweaks_of :: "(string \<Rightarrow> string) \<Rightarrow> string list \<Rightarrow> (string \<rightharpoonup> string)" where
  "all_tweaks_of lower tweakslist =
     map_of (rev (map (\<lambda>repo_ref. (make_id lower repo_ref, repo_ref)) tweakslist))"

definition analyze_all :: "(string \<Rightarrow> string) \<Rightarrow> tables \<Rightarrow> string list \<Rightarrow> config list" where
  "analyze_all lower T tweakslist =
     map (\<lambda>repo_ref. analyze_tweak lower T repo_ref (all_tweaks_of lower tweakslist))
       tweakslist"

definition main ::
  "(string \<Rightarrow> string) \<Rightarrow> (string list \<Rightarrow> string list) \<Rightarrow> tables \<Rightarrow> string list option option
     \<Rightarrow> failure + (message list \<times> output_document)" where
  "main lower iter T config_file =
     (case config_file of
        None \<Rightarrow> Inl ConfigNotFound
      | Some document \<Rightarrow>
          (let tweakslist = (case document of Some l \<Rightarrow> l | None \<Rightarrow> [])
           in if tweakslist = [] then Inl NoTweaks
              else
                (let reports = map (\<lambda>(repo_ref, reason). Skipping repo_ref reason)
                                 (skipped lower T tweakslist);
                     tweakslist = active_tweakslist lower T tweakslist;
                     configs = analyze_all lower T tweakslist;
                     (warnings, build_order) = topological_sort iter configs;
                     required = collect_all_headers configs
                 in Inr (reports @ warnings,
                         \<lparr> out_tweakslist = tweakslist,
                           out_config = configs,
                           out_build_order = build_order,
                           out_headers = header_config T required,
                           out_metadata =
                             \<lparr> total_tweaks = length tweakslist,
                               successfully_analyzed = length configs,
                               required_headers = required \<rparr> \<rparr>))))"

subsection \<open>Notions the properties are stated with\<close>

text \<open>
  What idempotence of normalisation needs of \<open>str.lower\<close>: lower-casing a lower-cased
  string changes nothing, and lower-casing brings in none of the four characters that
  \<open>normalize_id\<close> splits at or deletes.
\<close>

definition lower_casing :: "(string \<Rightarrow> string) \<Rightarrow> bool" where
  "lower_casing lower =
     (\<forall>s. lower (lower s) = lower s \<and>
          (\<forall>c \<in> {CHR ''/'', CHR ''-'', CHR ''_'', CHR ''.''}. c \<in> set (lower s) \<longrightarrow> c \<in> set s))"

text \<open>
  \<open>str.lower\<close> on strings of ASCII characters, the references of the concrete inputs
  below: the letters \<open>A\<close> to \<open>Z\<close> become \<open>a\<close> to \<open>z\<close>. It stands in for the
  parameter \<open>lower\<close> only where a definition is run on such an input.
\<close>

definition ascii_lower_char :: "char \<Rightarrow> char" where
  "ascii_lower_char c =
     (if CHR ''A'' \<le> c \<and> c \<le> CHR ''Z'' then char_of (of_char c + (32::nat)) else c)"

definition ascii_lower :: "string \<Rightarrow> string" where
  "ascii_lower s = map ascii_lower_char s"

text \<open>An identifier that no table of the resolver mentions.\<close>

definition absent_from_tables :: "tables \<Rightarrow> string \<Rightarrow> bool" where
  "absent_from_tables T tweak_id =
     (tweak_id \<notin> HAS_RELEASES T \<and> tweak_id \<notin> APPEX_REPOS T \<and>
      SPECIAL_BUILD_CMDS T tweak_id = None \<and> KNOWN_DEPENDENCIES T tweak_id = None \<and>
      HEADER_DEPENDENCIES T tweak_id = None \<and> DEB_FILTERS T tweak_id = None \<and>
      PRE_BUILD_CMDS T tweak_id = None \<and> SKIPPED_TWEAKS T tweak_id = None)"

text \<open>
  The dependency graph of a list of records, as \<open>topological_sort\<close> builds it: an edge
  \<open>(n, m)\<close> says that the record identifier \<open>n\<close> depends on \<open>m\<close>. The graph is closed
  when every dependency is itself a record identifier.
\<close>

definition dependency_edges :: "config list \<Rightarrow> (string \<times> string) set" where
  "dependency_edges configs =
     (\<Union>n \<in> all_ids configs. Pair n ` graph_get (graph configs) n)"

definition closed_graph :: "config list \<Rightarrow> bool" where
  "closed_graph configs = (snd ` dependency_edges configs \<subseteq> all_ids configs)"

text \<open>\<open>precedes order a b\<close>: \<open>b\<close> is in the order, and \<open>a\<close> stands strictly before it.\<close>

definition precedes :: "string list \<Rightarrow> string \<Rightarrow> string \<Rightarrow> bool" where
  "precedes order a b = (b \<in> set order \<and> a \<in> set (takeWhile (\<lambda>x. x \<noteq> b) order))"

text \<open>
  The invariant of the \<open>while\<close> loop: queue and result hold no identifier twice, the
  in-degree of an identifier counts its dependencies not yet in the result, the
  identifiers in the queue or the result are those whose dependencies are all in the
  result, and every identifier of the result comes after its dependencies.
\<close>

definition dep_ordered :: "(string \<rightharpoonup> string set) \<Rightarrow> string list \<Rightarrow> bool" where
  "dep_ordered g result = (\<forall>pre n post. result = pre @ n # post \<longrightarrow> graph_get g n \<subseteq> set pre)"

definition kahn_inv ::
  "(string \<rightharpoonup> string set) \<Rightarrow> string list \<Rightarrow> (string \<Rightarrow> int) \<Rightarrow> string list \<Rightarrow> string list \<Rightarrow> bool" where
  "kahn_inv g ids d queue result =
     (distinct (queue @ result) \<and>
      (\<forall>n \<in> set ids. d n = int (card (graph_get g n - set result))) \<and>
      set queue \<union> set result = {n \<in> set ids. graph_get g n \<subseteq> set result} \<and>
      dep_ordered g result)"

definition kahn_final :: "(string \<rightharpoonup> string set) \<Rightarrow> string list \<Rightarrow> string list \<Rightarrow> bool" where
  "kahn_final g ids result =
     (distinct result \<and> set result = {n \<in> set ids. graph_get g n \<subseteq> set result} \<and>
      dep_ordered g result)"

text \<open>The result of the loop of \<open>topological_sort\<close>, before the length check.\<close>

definition kahn_result :: "(string list \<Rightarrow> string list) \<Rightarrow> config list \<Rightarrow> string list" where
  "kahn_result iter configs =
     kahn_loop (graph configs) (iter (map cfg_id configs))
       (\<lambda>node. int (card (graph_get (graph configs) node)))
       (filter (\<lambda>node. int (card (graph_get (graph configs) node)) = 0)
          (iter (map cfg_id configs))) []"

text \<open>A record with the given identifier and \<open>depends_on\<close> list, for concrete inputs.\<close>

definition dep_record :: "string \<Rightarrow> string list \<Rightarrow> config" where
  "dep_record name deps =
     \<lparr> cfg_id = name, repo = name, fetch = ''build'', build_cmd = Some DEFAULT_BUILD_CMD,
       deb_filter = None, deb_exclude = None, depends_on = Some deps,
       pre_build_cmd = None, headers = Some [''YouTubeHeader''] \<rparr>"

text \<open>
  No dependency list of the tables names a skipped identifier (true of the source's
  tables, whose only dependency is \<open>ytvideooverlay\<close>).
\<close>

definition dependencies_active :: "tables \<Rightarrow> bool" where
  "dependencies_active T =
     (\<forall>tweak_id deps. KNOWN_DEPENDENCIES T tweak_id = Some deps \<longrightarrow>
        (\<forall>dep \<in> set deps. SKIPPED_TWEAKS T dep = None))"

text \<open>Tables that differ from the source's by one entry, to exercise the resolver.\<close>

definition tables_with_build_filter :: tables where
  "tables_with_build_filter =
     static_tables\<lparr>DEB_FILTERS :=
       (DEB_FILTERS static_tables)(''ytuhd'' \<mapsto> [(''deb_filter'', ''arm64''), (''deb_exclude'', ''roothide'')])\<rparr>"

definition tables_with_release_override :: tables where
  "tables_with_release_override =
     static_tables\<lparr>SPECIAL_BUILD_CMDS :=
       (SPECIAL_BUILD_CMDS static_tables)(''ytlite'' \<mapsto> ''make package'',
          ''youtubeextensions'' \<mapsto> ''make appex'')\<rparr>"

text \<open>Tables whose dependency lists form a cycle.\<close>

definition tables_with_cycle :: tables where
  "tables_with_cycle =
     static_tables\<lparr>KNOWN_DEPENDENCIES := [''x'' \<mapsto> [''y''], ''y'' \<mapsto> [''x'']]\<rparr>"

section \<open>Properties\<close>

subsection \<open>Identifier normalisation\<close>

lemma split_not_Nil: "split sep s \<noteq> []"
  by (induction s) (auto split: list.splits)

lemma last_split_no_sep: "sep \<notin> set (last (split sep s))"
proof (induction s)
  case Nil
  show ?case by simp
next
  case (Cons c cs)
  then show ?case
    using split_not_Nil[of sep cs] by (auto split: list.splits)
qed

lemma split_no_sep: "sep \<notin> set s \<Longrightarrow> split sep s = [s]"
  by (induction s) auto

lemma filter_id_absent: "c \<notin> set s \<Longrightarrow> replace_empty c s = s"
  by (auto simp: replace_empty_def filter_id_conv)

lemma stripped_name_free:
  "c \<in> {CHR ''/'', CHR ''-'', CHR ''_'', CHR ''.''} \<Longrightarrow>
   c \<notin> set (replace_empty CHR ''.'' (replace_empty CHR ''_''
              (replace_empty CHR ''-'' (last (split CHR ''/'' r)))))"
  using last_split_no_sep[of "CHR ''/''" r] by (auto simp: replace_empty_def)

lemma normalize_id_free:
  assumes "lower_casing lower" and "c \<in> {CHR ''/'', CHR ''-'', CHR ''_'', CHR ''.''}"
  shows "c \<notin> set (normalize_id lower r)"
proof
  let ?x = "replace_empty CHR ''.'' (replace_empty CHR ''_''
              (replace_empty CHR ''-'' (last (split CHR ''/'' r))))"
  assume "c \<in> set (normalize_id lower r)"
  then have "c \<in> set (lower ?x)" by (simp add: normalize_id_def Let_def)
  with assms have "c \<in> set ?x" unfolding lower_casing_def by blast
  with stripped_name_free[OF assms(2), of r] show False by simp
qed

lemma normalize_id_lower:
  "lower_casing lower \<Longrightarrow> lower (normalize_id lower r) = normalize_id lower r"
  by (simp add: normalize_id_def Let_def lower_casing_def)

text \<open>The ASCII lower-casing is a lower-casing in this sense.\<close>

lemma ascii_lower_char_range:
  "ascii_lower_char c = c \<or>
   (CHR ''a'' \<le> ascii_lower_char c \<and> ascii_lower_char c \<le> CHR ''z'')"
proof (cases "CHR ''A'' \<le> c \<and> c \<le> CHR ''Z''")
  case False
  then show ?thesis by (auto simp: ascii_lower_char_def)
next
  case True
  then have b: "65 \<le> (of_char c :: nat)" "(of_char c :: nat) \<le> 90"
    by (simp_all add: less_eq_char_def)
  then have "(of_char (char_of (of_char c + (32::nat)) :: char) :: nat) = of_char c + 32"
    by (simp add: of_char_of)
  with b True show ?thesis
    by (simp add: ascii_lower_char_def less_eq_char_def)
qed

lemma ascii_lower_char_idem: "ascii_lower_char (ascii_lower_char c) = ascii_lower_char c"
proof -
  from ascii_lower_char_range[of c] show ?thesis
  proof
    assume "ascii_lower_char c = c" then show ?thesis by simp
  next
    assume "CHR ''a'' \<le> ascii_lower_char c \<and> ascii_lower_char c \<le> CHR ''z''"
    then have "\<not> ascii_lower_char c \<le> CHR ''Z''"
      by (simp add: less_eq_char_def)
    then show ?thesis by (simp add: ascii_lower_char_def[of "ascii_lower_char c"])
  qed
qed

lemma ascii_lower_char_keeps:
  assumes "\<not> (CHR ''a'' \<le> s \<and> s \<le> CHR ''z'')" and "ascii_lower_char c = s"
  shows "c = s"
  using ascii_lower_char_range[of c] assms by auto

lemma lower_casing_ascii_lower: "lower_casing ascii_lower"
  unfolding lower_casing_def
proof (intro allI conjI ballI impI)
  fix s
  show "ascii_lower (ascii_lower s) = ascii_lower s"
    by (simp add: ascii_lower_def ascii_lower_char_idem)
next
  fix s c
  assume sep: "c \<in> {CHR ''/'', CHR ''-'', CHR ''_'', CHR ''.''}"
    and "c \<in> set (ascii_lower s)"
  then obtain x where x: "x \<in> set s" "ascii_lower_char x = c"
    by (auto simp: ascii_lower_def)
  from sep have "\<not> (CHR ''a'' \<le> c \<and> c \<le> CHR ''z'')"
    by (auto simp: less_eq_char_def)
  from ascii_lower_char_keeps[OF this x(2)] x(1) show "c \<in> set s" by simp
qed

text \<open>
  C8. Normalisation is idempotent: normalising the identifier of a repository reference
  gives that identifier again. The property rests on two facts of \<open>str.lower\<close>, which is
  not code of the script: it is idempotent, and it brings in no \<open>/\<close>, \<open>-\<close>, \<open>_\<close> or
  \<open>.\<close>.
\<close>

theorem normalize_id_idempotent:
  assumes "lower_casing lower"
  shows "normalize_id lower (normalize_id lower r) = normalize_id lower r"
proof -
  let ?n = "normalize_id lower r"
  have "split CHR ''/'' ?n = [?n]"
    by (rule split_no_sep) (simp add: normalize_id_free[OF assms])
  then have "normalize_id lower ?n =
    lower (replace_empty CHR ''.'' (replace_empty CHR ''_'' (replace_empty CHR ''-'' ?n)))"
    by (simp add: normalize_id_def[of lower ?n])
  also have "\<dots> = lower ?n"
    by (simp add: filter_id_absent normalize_id_free[OF assms])
  also have "\<dots> = ?n" by (rule normalize_id_lower[OF assms])
  finally show ?thesis .
qed

theorem normalize_id_idempotent_witness:
  "lower_casing ascii_lower \<and>
   normalize_id ascii_lower ''PoomSmart/You-Tube_Header.X'' = ''youtubeheaderx'' \<and>
   normalize_id ascii_lower (normalize_id ascii_lower ''PoomSmart/You-Tube_Header.X'')
     = ''youtubeheaderx''"
proof -
  have ev: "normalize_id ascii_lower ''PoomSmart/You-Tube_Header.X'' = ''youtubeheaderx''"
    by code_simp
  from normalize_id_idempotent[OF lower_casing_ascii_lower, of "''PoomSmart/You-Tube_Header.X''"]
  have "normalize_id ascii_lower (normalize_id ascii_lower ''PoomSmart/You-Tube_Header.X'')
     = ''youtubeheaderx''" unfolding ev .
  with lower_casing_ascii_lower ev show ?thesis by blast
qed

subsection \<open>The metadata resolver\<close>

text \<open>
  C4. An identifier absent from every lookup table resolves to the all-defaults record:
  fetch method \<open>build\<close>, the default build command, the header \<open>YouTubeHeader\<close>, and no
  \<open>depends_on\<close>, \<open>deb_filter\<close>, \<open>deb_exclude\<close> or \<open>pre_build_cmd\<close> key. The function
  is total: it raises nothing.
\<close>

theorem analyze_tweak_unknown:
  assumes "absent_from_tables T (make_id lower repo_ref)"
  shows "analyze_tweak lower T repo_ref all_tweaks =
           \<lparr> cfg_id = make_id lower repo_ref, repo = repo_ref, fetch = ''build'',
             build_cmd = Some DEFAULT_BUILD_CMD, deb_filter = None, deb_exclude = None,
             depends_on = None, pre_build_cmd = None, headers = Some [''YouTubeHeader''] \<rparr>"
  using assms by (simp add: analyze_tweak_def absent_from_tables_def Let_def)

theorem analyze_tweak_unknown_witness:
  "absent_from_tables static_tables (make_id ascii_lower ''someone/New-Tweak'') \<and>
   analyze_tweak ascii_lower static_tables ''someone/New-Tweak'' Map.empty =
     \<lparr> cfg_id = ''newtweak'', repo = ''someone/New-Tweak'', fetch = ''build'',
       build_cmd = Some ''make clean package DEBUG=0 FINALPACKAGE=1'',
       deb_filter = None, deb_exclude = None,
       depends_on = None, pre_build_cmd = None, headers = Some [''YouTubeHeader''] \<rparr>"
proof -
  have id: "make_id ascii_lower ''someone/New-Tweak'' = ''newtweak''" by code_simp
  have absent: "absent_from_tables static_tables (make_id ascii_lower ''someone/New-Tweak'')"
    unfolding id by (simp add: absent_from_tables_def static_tables_def)
  from analyze_tweak_unknown[OF absent, of Map.empty] absent show ?thesis
    by (simp add: id DEFAULT_BUILD_CMD_def)
qed

text \<open>
  C6. \<open>deb_filter\<close> and \<open>deb_exclude\<close> are in the record only when the fetch method is
  \<open>release\<close>, whatever the deb-filter table holds for the identifier; for a release
  identifier they are the entries of the table.
\<close>

theorem deb_fields_only_for_release:
  "(fetch (analyze_tweak lower T repo_ref all_tweaks) \<noteq> ''release'' \<longrightarrow>
      deb_filter (analyze_tweak lower T repo_ref all_tweaks) = None \<and>
      deb_exclude (analyze_tweak lower T repo_ref all_tweaks) = None) \<and>
   (fetch (analyze_tweak lower T repo_ref all_tweaks) = ''release'' \<longrightarrow>
      deb_filter (analyze_tweak lower T repo_ref all_tweaks) =
        (case DEB_FILTERS T (make_id lower repo_ref) of
           Some opts \<Rightarrow> map_of opts ''deb_filter'' | None \<Rightarrow> None) \<and>
      deb_exclude (analyze_tweak lower T repo_ref all_tweaks) =
        (case DEB_FILTERS T (make_id lower repo_ref) of
           Some opts \<Rightarrow> map_of opts ''deb_exclude'' | None \<Rightarrow> None))"
  by (auto simp: analyze_tweak_def Let_def split: option.splits)

theorem deb_fields_only_for_release_witness:
  "DEB_FILTERS tables_with_build_filter (make_id ascii_lower ''PoomSmart/YTUHD'') =
     Some [(''deb_filter'', ''arm64''), (''deb_exclude'', ''roothide'')] \<and>
   fetch (analyze_tweak ascii_lower tables_with_build_filter ''PoomSmart/YTUHD'' Map.empty) = ''build'' \<and>
   deb_filter (analyze_tweak ascii_lower tables_with_build_filter ''PoomSmart/YTUHD'' Map.empty) = None \<and>
   deb_exclude (analyze_tweak ascii_lower tables_with_build_filter ''PoomSmart/YTUHD'' Map.empty) = None \<and>
   fetch (analyze_tweak ascii_lower static_tables ''dayanch96/YTLite'' Map.empty) = ''release'' \<and>
   deb_filter (analyze_tweak ascii_lower static_tables ''dayanch96/YTLite'' Map.empty) = Some ''iphoneos-arm64'' \<and>
   deb_exclude (analyze_tweak ascii_lower static_tables ''dayanch96/YTLite'' Map.empty) = Some ''roothide''"
proof -
  have id: "make_id ascii_lower ''PoomSmart/YTUHD'' = ''ytuhd''" "make_id ascii_lower ''dayanch96/YTLite'' = ''ytlite''"
    by code_simp+
  have f: "fetch (analyze_tweak ascii_lower tables_with_build_filter ''PoomSmart/YTUHD'' Map.empty) = ''build''"
    by (simp add: analyze_tweak_def id tables_with_build_filter_def static_tables_def Let_def)
  have g: "fetch (analyze_tweak ascii_lower static_tables ''dayanch96/YTLite'' Map.empty) = ''release''"
    by (simp add: analyze_tweak_def id static_tables_def Let_def)
  from deb_fields_only_for_release[of ascii_lower tables_with_build_filter "''PoomSmart/YTUHD''" Map.empty]
       deb_fields_only_for_release[of ascii_lower static_tables "''dayanch96/YTLite''" Map.empty] f g
  show ?thesis
    by (simp add: id tables_with_build_filter_def static_tables_def)
qed

text \<open>
  C10. The record has the key \<open>build_cmd\<close> if and only if its fetch method is \<open>build\<close>,
  whatever the override table holds; then it is the override, or the default command.
\<close>

theorem build_cmd_iff_build:
  "(build_cmd (analyze_tweak lower T repo_ref all_tweaks) \<noteq> None) =
     (fetch (analyze_tweak lower T repo_ref all_tweaks) = ''build'') \<and>
   (fetch (analyze_tweak lower T repo_ref all_tweaks) = ''build'' \<longrightarrow>
      build_cmd (analyze_tweak lower T repo_ref all_tweaks) =
        Some (case SPECIAL_BUILD_CMDS T (make_id lower repo_ref) of
                Some c \<Rightarrow> c | None \<Rightarrow> DEFAULT_BUILD_CMD))"
  by (simp add: analyze_tweak_def Let_def)

theorem build_cmd_iff_build_witness:
  "SPECIAL_BUILD_CMDS tables_with_release_override (make_id ascii_lower ''dayanch96/YTLite'') = Some ''make package'' \<and>
   fetch (analyze_tweak ascii_lower tables_with_release_override ''dayanch96/YTLite'' Map.empty) = ''release'' \<and>
   build_cmd (analyze_tweak ascii_lower tables_with_release_override ''dayanch96/YTLite'' Map.empty) = None \<and>
   SPECIAL_BUILD_CMDS tables_with_release_override (make_id ascii_lower ''CokePokes/YoutubeExtensions'') = Some ''make appex'' \<and>
   fetch (analyze_tweak ascii_lower tables_with_release_override ''CokePokes/YoutubeExtensions'' Map.empty) = ''appex'' \<and>
   build_cmd (analyze_tweak ascii_lower tables_with_release_override ''CokePokes/YoutubeExtensions'' Map.empty) = None \<and>
   fetch (analyze_tweak ascii_lower tables_with_release_override ''PoomSmart/YTUHD'' Map.empty) = ''build'' \<and>
   build_cmd (analyze_tweak ascii_lower tables_with_release_override ''PoomSmart/YTUHD'' Map.empty) =
     Some ''make clean package DEBUG=0 FINALPACKAGE=1 SIDELOAD=1''"
proof -
  have id: "make_id ascii_lower ''PoomSmart/YTUHD'' = ''ytuhd''" "make_id ascii_lower ''dayanch96/YTLite'' = ''ytlite''"
     "make_id ascii_lower ''CokePokes/YoutubeExtensions'' = ''youtubeextensions''"
    by code_simp+
  have f: "fetch (analyze_tweak ascii_lower tables_with_release_override ''dayanch96/YTLite'' Map.empty) = ''release''"
    "fetch (analyze_tweak ascii_lower tables_with_release_override ''CokePokes/YoutubeExtensions'' Map.empty) = ''appex''"
    "fetch (analyze_tweak ascii_lower tables_with_release_override ''PoomSmart/YTUHD'' Map.empty) = ''build''"
    by (simp_all add: analyze_tweak_def id tables_with_release_override_def static_tables_def Let_def)
  from build_cmd_iff_build[of ascii_lower tables_with_release_override "''dayanch96/YTLite''" Map.empty]
       build_cmd_iff_build[of ascii_lower tables_with_release_override "''CokePokes/YoutubeExtensions''" Map.empty]
       build_cmd_iff_build[of ascii_lower tables_with_release_override "''PoomSmart/YTUHD''" Map.empty] f
  show ?thesis
    by (simp add: id tables_with_release_override_def static_tables_def)
qed


subsection \<open>The loop of the build order planner\<close>

lemma for_others_eq:
  "distinct os \<Longrightarrow>
   for_others g node os d q =
     (\<lambda>x. if x \<in> set os \<and> node \<in> graph_get g x then d x - 1 else d x,
      q @ filter (\<lambda>x. node \<in> graph_get g x \<and> d x = 1) os)"
proof (induction os arbitrary: d q)
  case Nil
  show ?case by simp
next
  case (Cons other rest)
  then have nin: "other \<notin> set rest" and dist: "distinct rest" by simp_all
  show ?case
  proof (cases "node \<in> graph_get g other")
    case False
    then show ?thesis using Cons.IH[OF dist, of d q] by (auto simp: fun_eq_iff)
  next
    case True
    let ?d1 = "d(other := d other - 1)"
    have same: "filter (\<lambda>x. node \<in> graph_get g x \<and> ?d1 x = 1) rest
                 = filter (\<lambda>x. node \<in> graph_get g x \<and> d x = 1) rest"
      using nin by (intro filter_cong) auto
    let ?q1 = "if ?d1 other = 0 then q @ [other] else q"
    have "for_others g node (other # rest) d q = for_others g node rest ?d1 ?q1"
      using True by (simp add: Let_def)
    also have "\<dots> = (\<lambda>x. if x \<in> set rest \<and> node \<in> graph_get g x then ?d1 x - 1 else ?d1 x,
                       ?q1 @ filter (\<lambda>x. node \<in> graph_get g x \<and> ?d1 x = 1) rest)"
      by (rule Cons.IH[OF dist])
    also have "(\<lambda>x. if x \<in> set rest \<and> node \<in> graph_get g x then ?d1 x - 1 else ?d1 x)
             = (\<lambda>x. if x \<in> set (other # rest) \<and> node \<in> graph_get g x then d x - 1 else d x)"
      using True nin by (auto simp: fun_eq_iff)
    also have "?q1 @ filter (\<lambda>x. node \<in> graph_get g x \<and> ?d1 x = 1) rest
             = q @ filter (\<lambda>x. node \<in> graph_get g x \<and> d x = 1) (other # rest)"
      unfolding same using True by simp
    finally show ?thesis .
  qed
qed

lemma dep_ordered_snoc:
  assumes "dep_ordered g result" "graph_get g node \<subseteq> set result"
  shows "dep_ordered g (result @ [node])"
  unfolding dep_ordered_def
proof (intro allI impI)
  fix pre n post
  assume eq: "result @ [node] = pre @ n # post"
  show "graph_get g n \<subseteq> set pre"
  proof (cases post rule: rev_cases)
    case Nil
    with eq have "pre = result" "n = node" by simp_all
    with assms(2) show ?thesis by simp
  next
    case (snoc post' z)
    with eq have "result = pre @ n # post'" by simp
    with assms(1) show ?thesis unfolding dep_ordered_def by blast
  qed
qed

lemma kahn_inv_step:
  assumes fin: "\<And>n. finite (graph_get g n)" and dist: "distinct ids"
    and inv: "kahn_inv g ids d queue result" and ne: "queue \<noteq> []"
  shows "kahn_inv g ids (fst (for_others g (hd (sort queue)) ids d (tl (sort queue))))
           (snd (for_others g (hd (sort queue)) ids d (tl (sort queue))))
           (result @ [hd (sort queue)])"
proof -
  let ?G = "graph_get g"
  let ?sq = "sort queue"
  let ?node = "hd ?sq"
  let ?new = "filter (\<lambda>x. ?node \<in> ?G x \<and> d x = 1) ids"
  from ne have sqne: "?sq \<noteq> []" by (metis length_0_conv length_sort)
  then have sq: "?sq = ?node # tl ?sq" by simp
  have setq: "set queue = insert ?node (set (tl ?sq))"
    by (metis sq list.simps(15) set_sort)
  have distsq: "distinct ?sq" using inv by (simp add: kahn_inv_def)
  then have node_tl: "?node \<notin> set (tl ?sq)" and dist_tl: "distinct (tl ?sq)"
    by (metis sq distinct.simps(2))+
  from inv have dq: "distinct queue" "distinct result" "set queue \<inter> set result = {}"
    and deg: "\<And>n. n \<in> set ids \<Longrightarrow> d n = int (card (?G n - set result))"
    and front: "set queue \<union> set result = {n \<in> set ids. ?G n \<subseteq> set result}"
    and ord: "dep_ordered g result"
    by (auto simp: kahn_inv_def)
  have node_q: "?node \<in> set queue" using setq by simp
  then have node_ids: "?node \<in> set ids" and node_deps: "?G ?node \<subseteq> set result"
    using front by auto
  have node_res: "?node \<notin> set result" using node_q dq(3) by auto
  have eq: "for_others g ?node ids d (tl ?sq) =
      (\<lambda>x. if x \<in> set ids \<and> ?node \<in> ?G x then d x - 1 else d x, tl ?sq @ ?new)"
    by (rule for_others_eq[OF dist])
  have card_step: "int (card (?G n - set (result @ [?node]))) =
                   (if ?node \<in> ?G n then int (card (?G n - set result)) - 1
                    else int (card (?G n - set result)))" for n
  proof (cases "?node \<in> ?G n")
    case False
    then have "?G n - set (result @ [?node]) = ?G n - set result" by auto
    with False show ?thesis by simp
  next
    case True
    have "?G n - set (result @ [?node]) = (?G n - set result) - {?node}" by auto
    moreover have "?node \<in> ?G n - set result" using True node_res by simp
    moreover have "finite (?G n - set result)" using fin by simp
    ultimately have "card (?G n - set result) = Suc (card (?G n - set (result @ [?node])))"
      by (metis card_Suc_Diff1)
    with True show ?thesis by simp
  qed
  have new_char: "set ?new = {n \<in> set ids. ?G n \<subseteq> set (result @ [?node]) \<and> \<not> ?G n \<subseteq> set result}"
  proof (intro set_eqI iffI)
    fix n assume "n \<in> set ?new"
    then have n: "n \<in> set ids" "?node \<in> ?G n" "d n = 1" by auto
    then have c1: "card (?G n - set result) = 1" using deg[of n] by simp
    then have "card (?G n - set (result @ [?node])) = 0"
      using card_step[of n] n(2) by simp
    then have "?G n - set (result @ [?node]) = {}" using fin by simp
    moreover have "\<not> ?G n \<subseteq> set result" using n(2) node_res by auto
    ultimately show "n \<in> {n \<in> set ids. ?G n \<subseteq> set (result @ [?node]) \<and> \<not> ?G n \<subseteq> set result}"
      using n(1) by auto
  next
    fix n assume "n \<in> {n \<in> set ids. ?G n \<subseteq> set (result @ [?node]) \<and> \<not> ?G n \<subseteq> set result}"
    then have n: "n \<in> set ids" "?G n \<subseteq> set (result @ [?node])" "\<not> ?G n \<subseteq> set result" by auto
    then have in_g: "?node \<in> ?G n" by auto
    have "?G n - set (result @ [?node]) = {}" using n(2) by auto
    then have "card (?G n - set (result @ [?node])) = 0" by (simp only: card.empty)
    then have "int (card (?G n - set result)) = 1" using card_step[of n] in_g by simp
    then have "d n = 1" using deg[OF n(1)] by simp
    with n(1) in_g show "n \<in> set ?new" by simp
  qed
  have new_fresh: "set ?new \<inter> (set queue \<union> set result) = {}"
    using new_char front by auto
  have node_new: "?node \<notin> set ?new" using new_fresh node_q by auto
  have d1: "distinct ((tl ?sq @ ?new) @ (result @ [?node]))"
  proof -
    have "set (tl ?sq) \<subseteq> set queue" using setq by auto
    then show ?thesis
      using dist_tl dist dq new_fresh node_tl node_res node_new by auto
  qed
  have d2: "\<forall>n \<in> set ids. (if n \<in> set ids \<and> ?node \<in> ?G n then d n - 1 else d n)
               = int (card (?G n - set (result @ [?node])))"
    using card_step deg by simp
  have d3: "set (tl ?sq @ ?new) \<union> set (result @ [?node])
              = {n \<in> set ids. ?G n \<subseteq> set (result @ [?node])}"
  proof -
    have "set (tl ?sq @ ?new) \<union> set (result @ [?node]) = (set queue \<union> set result) \<union> set ?new"
      using setq by auto
    also have "\<dots> = {n \<in> set ids. ?G n \<subseteq> set result} \<union> set ?new" using front by simp
    also have "\<dots> = {n \<in> set ids. ?G n \<subseteq> set (result @ [?node])}"
      unfolding new_char by auto
    finally show ?thesis .
  qed
  have d4: "dep_ordered g (result @ [?node])"
    by (rule dep_ordered_snoc[OF ord node_deps])
  show ?thesis
    unfolding eq fst_conv snd_conv kahn_inv_def using d1 d2 d3 d4 by blast
qed



lemma kahn_loop_Nil: "kahn_loop g ids d [] result = result"
  by simp

lemma kahn_loop_Cons:
  "queue \<noteq> [] \<Longrightarrow>
   kahn_loop g ids d queue result =
     kahn_loop g ids (fst (for_others g (hd (sort queue)) ids d (tl (sort queue))))
       (snd (for_others g (hd (sort queue)) ids d (tl (sort queue))))
       (result @ [hd (sort queue)])"
  by (subst kahn_loop.simps) (simp add: Let_def)

declare kahn_loop.simps [simp del]

lemma kahn_loop_final:
  "(\<And>n. finite (graph_get g n)) \<Longrightarrow> distinct ids \<Longrightarrow> kahn_inv g ids d queue result \<Longrightarrow>
   kahn_final g ids (kahn_loop g ids d queue result)"
proof (induction g ids d queue result rule: kahn_loop.induct)
  case (1 g ids d queue result)
  show ?case
  proof (cases "queue = []")
    case True
    with "1.prems"(3) show ?thesis
      by (simp add: kahn_loop_Nil kahn_inv_def kahn_final_def)
  next
    case False
    have "kahn_inv g ids (fst (for_others g (hd (sort queue)) ids d (tl (sort queue))))
           (snd (for_others g (hd (sort queue)) ids d (tl (sort queue))))
           (result @ [hd (sort queue)])"
      by (rule kahn_inv_step[OF "1.prems"(1) "1.prems"(2) "1.prems"(3) False])
    from "1.IH"[OF False refl refl refl "1.prems"(1) "1.prems"(2) this]
    show ?thesis by (simp add: kahn_loop_Cons[OF False])
  qed
qed

lemma kahn_inv_init:
  assumes fin: "\<And>n. finite (graph_get g n)" and dist: "distinct ids"
  shows "kahn_inv g ids (\<lambda>node. int (card (graph_get g node)))
           (filter (\<lambda>node. int (card (graph_get g node)) = 0) ids) []"
  using fin dist by (auto simp: kahn_inv_def dep_ordered_def)

lemma graph_fold_dom:
  "dom (fold (\<lambda>cfg g. g(cfg_id cfg \<mapsto> set (deps_of cfg))) configs g0)
     = dom g0 \<union> set (map cfg_id configs)"
  by (induction configs arbitrary: g0) auto

lemma dom_graph: "dom (graph configs) = all_ids configs"
  by (simp add: graph_def all_ids_def graph_fold_dom)

lemma graph_fold_finite:
  "(\<And>n. finite (graph_get g0 n)) \<Longrightarrow>
   finite (graph_get (fold (\<lambda>cfg g. g(cfg_id cfg \<mapsto> set (deps_of cfg))) configs g0) n)"
proof (induction configs arbitrary: g0)
  case Nil
  then show ?case by simp
next
  case (Cons cfg configs)
  show ?case
    unfolding fold_simps
    by (rule Cons.IH) (use Cons.prems in \<open>simp add: graph_get_def\<close>)
qed

lemma finite_graph: "finite (graph_get (graph configs) n)"
  unfolding graph_def by (rule graph_fold_finite) (simp add: graph_get_def)

lemma graph_get_outside: "n \<notin> all_ids configs \<Longrightarrow> graph_get (graph configs) n = {}"
  using dom_graph[of configs] by (auto simp: graph_get_def split: option.splits)

text \<open>With one record per identifier, the graph holds each record's \<open>depends_on\<close>.\<close>

lemma graph_fold_other:
  "k \<notin> set (map cfg_id configs) \<Longrightarrow>
   fold (\<lambda>cfg g. g(cfg_id cfg \<mapsto> set (deps_of cfg))) configs g0 k = g0 k"
  by (induction configs arbitrary: g0) auto

lemma graph_fold_lookup:
  "distinct (map cfg_id configs) \<Longrightarrow> cfg \<in> set configs \<Longrightarrow>
   fold (\<lambda>cfg g. g(cfg_id cfg \<mapsto> set (deps_of cfg))) configs g0 (cfg_id cfg)
     = Some (set (deps_of cfg))"
proof (induction configs arbitrary: g0)
  case Nil
  then show ?case by simp
next
  case (Cons c cs)
  show ?case
  proof (cases "cfg = c")
    case True
    with Cons.prems(1) have "cfg_id cfg \<notin> set (map cfg_id cs)" by simp
    from graph_fold_other[OF this, of "g0(cfg_id c \<mapsto> set (deps_of c))"]
    have "fold (\<lambda>cfg g. g(cfg_id cfg \<mapsto> set (deps_of cfg))) cs
            (g0(cfg_id c \<mapsto> set (deps_of c))) (cfg_id cfg)
          = (g0(cfg_id c \<mapsto> set (deps_of c))) (cfg_id cfg)" .
    also have "\<dots> = Some (set (deps_of cfg))" using True by simp
    finally show ?thesis by (simp del: fun_upd_apply)
  next
    case False
    with Cons.prems have "cfg \<in> set cs" "distinct (map cfg_id cs)" by simp_all
    from Cons.IH[OF this(2) this(1)] show ?thesis by (simp del: fun_upd_apply)
  qed
qed

lemma graph_of_record:
  "distinct (map cfg_id configs) \<Longrightarrow> cfg \<in> set configs \<Longrightarrow>
   graph_get (graph configs) (cfg_id cfg) = set (deps_of cfg)"
  by (simp add: graph_def graph_get_def graph_fold_lookup)

lemma topological_sort_eq:
  "topological_sort iter configs =
     (if length (kahn_result iter configs) \<noteq> card (all_ids configs)
      then ([CircularDependencyWarning], sorted_list_of_set (all_ids configs))
      else ([], kahn_result iter configs))"
  by (simp add: topological_sort_def kahn_result_def Let_def)

lemma kahn_result_final:
  assumes "set_iteration iter"
  shows "kahn_final (graph configs) (iter (map cfg_id configs)) (kahn_result iter configs)"
  unfolding kahn_result_def
  using assms
  by (intro kahn_loop_final kahn_inv_init finite_graph) (simp_all add: set_iteration_def)

lemma set_iter_ids: "set_iteration iter \<Longrightarrow> set (iter (map cfg_id configs)) = all_ids configs"
  by (simp add: set_iteration_def all_ids_def)

lemma kahn_result_facts:
  assumes "set_iteration iter"
  shows "distinct (kahn_result iter configs)"
    and "set (kahn_result iter configs)
           = {n \<in> all_ids configs. graph_get (graph configs) n \<subseteq> set (kahn_result iter configs)}"
    and "dep_ordered (graph configs) (kahn_result iter configs)"
  using kahn_result_final[OF assms, of configs] set_iter_ids[OF assms, of configs]
  by (simp_all add: kahn_final_def)

lemma kahn_result_complete_iff:
  assumes "set_iteration iter"
  shows "length (kahn_result iter configs) = card (all_ids configs)
           \<longleftrightarrow> set (kahn_result iter configs) = all_ids configs"
proof -
  have sub: "set (kahn_result iter configs) \<subseteq> all_ids configs"
    using kahn_result_facts(2)[OF assms, of configs] by blast
  have fin: "finite (all_ids configs)" by (simp add: all_ids_def)
  have len: "length (kahn_result iter configs) = card (set (kahn_result iter configs))"
    using kahn_result_facts(1)[OF assms] by (simp add: distinct_card)
  show ?thesis
    using sub fin len by (metis card_subset_eq)
qed

subsection \<open>The dependency graph and the result of the loop\<close>

lemma dependency_edges_iff:
  "(n, m) \<in> dependency_edges configs \<longleftrightarrow> n \<in> all_ids configs \<and> m \<in> graph_get (graph configs) n"
  by (auto simp: dependency_edges_def)

lemma finite_dependency_edges: "finite (dependency_edges configs)"
  by (simp add: dependency_edges_def all_ids_def finite_graph)

lemma precedes_split:
  assumes "distinct order" "order = pre @ b # post" "a \<in> set pre"
  shows "precedes order a b"
proof -
  have "b \<notin> set pre" using assms(1,2) by auto
  then have "takeWhile (\<lambda>x. x \<noteq> b) (pre @ b # post) = pre"
    by (induction pre) auto
  then have "takeWhile (\<lambda>x. x \<noteq> b) order = pre"
    using assms(2) by simp
  then show ?thesis using assms by (simp add: precedes_def)
qed

lemma dep_ordered_precedes:
  assumes "distinct order" "dep_ordered g order" "n \<in> set order" "m \<in> graph_get g n"
  shows "precedes order m n"
proof -
  from assms(3) obtain pre post where sp: "order = pre @ n # post"
    by (auto simp: in_set_conv_decomp)
  with assms(2) have "graph_get g n \<subseteq> set pre" unfolding dep_ordered_def by blast
  with assms(4) have "m \<in> set pre" by blast
  from precedes_split[OF assms(1) sp this] show ?thesis .
qed

lemma precedes_length:
  "precedes order a b \<Longrightarrow>
   length (takeWhile (\<lambda>x. x \<noteq> a) order) < length (takeWhile (\<lambda>x. x \<noteq> b) order)"
proof (induction order)
  case Nil
  then show ?case by (simp add: precedes_def)
next
  case (Cons x xs)
  then show ?case by (auto simp: precedes_def split: if_splits)
qed

lemma complete_acyclic:
  assumes it: "set_iteration iter"
    and full: "set (kahn_result iter configs) = all_ids configs"
  shows "acyclic (dependency_edges configs)"
proof (rule acyclicI_order[where f = "\<lambda>n. length (takeWhile (\<lambda>x. x \<noteq> n) (kahn_result iter configs))"])
  fix n m assume "(n, m) \<in> dependency_edges configs"
  then have "n \<in> set (kahn_result iter configs)" "m \<in> graph_get (graph configs) n"
    using full by (simp_all add: dependency_edges_iff)
  from dep_ordered_precedes[OF kahn_result_facts(1)[OF it] kahn_result_facts(3)[OF it] this]
  have "precedes (kahn_result iter configs) m n" .
  then show "length (takeWhile (\<lambda>x. x \<noteq> m) (kahn_result iter configs))
           < length (takeWhile (\<lambda>x. x \<noteq> n) (kahn_result iter configs))"
    by (rule precedes_length)
qed

lemma acyclic_closed_complete:
  assumes it: "set_iteration iter"
    and acyc: "acyclic (dependency_edges configs)"
    and closed: "closed_graph configs"
  shows "set (kahn_result iter configs) = all_ids configs"
proof (rule ccontr)
  let ?r = "kahn_result iter configs"
  let ?R = "all_ids configs - set ?r"
  assume "set ?r \<noteq> all_ids configs"
  moreover have sub: "set ?r \<subseteq> all_ids configs"
    using kahn_result_facts(2)[OF it, of configs] by blast
  ultimately obtain x where x: "x \<in> ?R" by blast
  have wf: "wf ((dependency_edges configs)\<inverse>)"
    by (rule finite_acyclic_wf_converse[OF finite_dependency_edges acyc])
  from wfE_min[OF wf x] obtain z where z: "z \<in> ?R"
    and zmin: "\<And>y. (y, z) \<in> (dependency_edges configs)\<inverse> \<Longrightarrow> y \<notin> ?R" by blast
  from z have "\<not> graph_get (graph configs) z \<subseteq> set ?r"
    using kahn_result_facts(2)[OF it, of configs] by blast
  then obtain m where m: "m \<in> graph_get (graph configs) z" "m \<notin> set ?r" by blast
  from z m(1) have e: "(z, m) \<in> dependency_edges configs" by (simp add: dependency_edges_iff)
  then have "m \<in> all_ids configs" using closed unfolding closed_graph_def by force
  with m(2) have "m \<in> ?R" by simp
  moreover from e have "m \<notin> ?R" using zmin[of m] by simp
  ultimately show False by simp
qed

lemma sorted_list_all_ids:
  "distinct (sorted_list_of_set (all_ids configs)) \<and>
   set (sorted_list_of_set (all_ids configs)) = all_ids configs \<and>
   sorted (sorted_list_of_set (all_ids configs))"
  by (simp add: all_ids_def)

lemma topological_sort_set:
  assumes "set_iteration iter"
  shows "distinct (snd (topological_sort iter configs)) \<and>
         set (snd (topological_sort iter configs)) = all_ids configs"
proof (cases "length (kahn_result iter configs) = card (all_ids configs)")
  case True
  then have "set (kahn_result iter configs) = all_ids configs"
    using kahn_result_complete_iff[OF assms] by blast
  with True kahn_result_facts(1)[OF assms, of configs] show ?thesis
    by (simp add: topological_sort_eq)
next
  case False
  then show ?thesis
    using sorted_list_all_ids[of configs] by (simp add: topological_sort_eq)
qed

lemma kahn_loop_order_irrelevant:
  assumes d1: "distinct ids" and d2: "distinct ids'" and s: "set ids = set ids'"
  shows "mset queue = mset queue' \<Longrightarrow>
         kahn_loop g ids d queue result = kahn_loop g ids' d queue' result"
  using d1 s
proof (induction g ids d queue result arbitrary: queue' rule: kahn_loop.induct)
  case (1 g ids d queue result)
  have srt: "sort queue = sort queue'"
    using "1.prems"(1) by (metis properties_for_sort sorted_sort mset_sort)
  show ?case
  proof (cases "queue = []")
    case True
    with "1.prems"(1) have "queue' = []" by simp
    with True show ?thesis by (simp add: kahn_loop_Nil)
  next
    case False
    with "1.prems"(1) have ne': "queue' \<noteq> []" by auto
    let ?node = "hd (sort queue)"
    let ?st = "for_others g ?node ids d (tl (sort queue))"
    let ?st' = "for_others g ?node ids' d (tl (sort queue))"
    have ms: "mset ids = mset ids'"
      using "1.prems"(2,3) d2 by (simp add: set_eq_iff_mset_eq_distinct)
    have f: "fst ?st = fst ?st'"
      by (simp add: for_others_eq[OF "1.prems"(2)] for_others_eq[OF d2] "1.prems"(3))
    have q: "mset (snd ?st) = mset (snd ?st')"
      by (simp add: for_others_eq[OF "1.prems"(2)] for_others_eq[OF d2] ms)
    have "kahn_loop g ids (fst ?st) (snd ?st) (result @ [?node])
            = kahn_loop g ids' (fst ?st) (snd ?st') (result @ [?node])"
      by (rule "1.IH"[OF False refl refl refl q "1.prems"(2,3)])
    then show ?thesis
      by (simp add: kahn_loop_Cons[OF False] kahn_loop_Cons[OF ne'] srt[symmetric] f)
  qed
qed

lemma hd_sort_Min: "queue \<noteq> [] \<Longrightarrow> hd (sort queue) = Min (set queue)"
proof -
  assume ne: "queue \<noteq> []"
  then have "sort queue \<noteq> []" by (metis length_0_conv length_sort)
  then obtain x xs where sq: "sort queue = x # xs" by (cases "sort queue") auto
  have "sorted (x # xs)" using sorted_sort[of queue] sq by simp
  then have "\<forall>y \<in> set (x # xs). x \<le> y" by auto
  moreover have "set (x # xs) = set queue" using sq by (metis set_sort)
  ultimately have "Min (set queue) = x"
    by (intro Min_eqI) auto
  with sq show ?thesis by simp
qed

lemma set_iteration_remdups: "set_iteration remdups"
  by (simp add: set_iteration_def)

lemma set_iteration_rev_remdups: "set_iteration (rev \<circ> remdups)"
  by (simp add: set_iteration_def)

lemma main_run:
  "tweakslist \<noteq> [] \<Longrightarrow>
   main lower iter T (Some (Some tweakslist)) =
     Inr (map (\<lambda>(repo_ref, reason). Skipping repo_ref reason) (skipped lower T tweakslist) @
            fst (topological_sort iter (analyze_all lower T (active_tweakslist lower T tweakslist))),
          \<lparr> out_tweakslist = active_tweakslist lower T tweakslist,
            out_config = analyze_all lower T (active_tweakslist lower T tweakslist),
            out_build_order =
              snd (topological_sort iter (analyze_all lower T (active_tweakslist lower T tweakslist))),
            out_headers =
              header_config T
                (collect_all_headers (analyze_all lower T (active_tweakslist lower T tweakslist))),
            out_metadata =
              \<lparr> total_tweaks = length (active_tweakslist lower T tweakslist),
                successfully_analyzed =
                  length (analyze_all lower T (active_tweakslist lower T tweakslist)),
                required_headers =
                  collect_all_headers (analyze_all lower T (active_tweakslist lower T tweakslist)) \<rparr> \<rparr>)"
  by (simp add: main_def Let_def split: prod.splits)

lemma main_Inr_input:
  "main lower iter T config_file = Inr r \<Longrightarrow> \<exists>tweakslist. config_file = Some (Some tweakslist) \<and> tweakslist \<noteq> []"
  by (cases config_file) (auto simp: main_def Let_def split: option.splits if_splits)

lemma analyze_tweak_id: "cfg_id (analyze_tweak lower T repo_ref a) = make_id lower repo_ref"
  and analyze_tweak_repo: "repo (analyze_tweak lower T repo_ref a) = repo_ref"
  by (simp_all add: analyze_tweak_def Let_def)

lemma analyze_tweak_deps:
  "deps_of (analyze_tweak lower T repo_ref a) =
     (case KNOWN_DEPENDENCIES T (make_id lower repo_ref) of Some ds \<Rightarrow> ds | None \<Rightarrow> [])"
  by (simp add: analyze_tweak_def deps_of_def Let_def split: option.splits)

lemma all_ids_analyze_all: "all_ids (analyze_all lower T tweakslist) = make_id lower ` set tweakslist"
  by (auto simp: all_ids_def analyze_all_def analyze_tweak_id)

subsection \<open>The build order planner\<close>

text \<open>
  C9. For every list of records, also when a \<open>depends_on\<close> list names an identifier that
  is no record's, the planner returns every record identifier exactly once: its output is
  a permutation of the identifier set, in the success branch and in the fallback branch.
\<close>

theorem topological_sort_permutation:
  assumes "set_iteration iter"
  shows "distinct (snd (topological_sort iter configs)) \<and>
         set (snd (topological_sort iter configs)) = all_ids configs"
  using assms by (rule topological_sort_set)

theorem topological_sort_permutation_witness:
  "set_iteration remdups \<and>
   topological_sort remdups [dep_record ''a'' [''b'', ''zzz''], dep_record ''b'' []]
     = ([CircularDependencyWarning], [''a'', ''b'']) \<and>
   all_ids [dep_record ''a'' [''b'', ''zzz''], dep_record ''b'' []] = {''a'', ''b''} \<and>
   distinct (snd (topological_sort remdups [dep_record ''a'' [''b'', ''zzz''], dep_record ''b'' []])) \<and>
   set (snd (topological_sort remdups [dep_record ''a'' [''b'', ''zzz''], dep_record ''b'' []]))
     = all_ids [dep_record ''a'' [''b'', ''zzz''], dep_record ''b'' []]"
proof -
  have ev: "topological_sort remdups [dep_record ''a'' [''b'', ''zzz''], dep_record ''b'' []]
     = ([CircularDependencyWarning], [''a'', ''b''])" by code_simp
  have ids: "all_ids [dep_record ''a'' [''b'', ''zzz''], dep_record ''b'' []] = {''a'', ''b''}"
    by (simp add: all_ids_def dep_record_def)
  from topological_sort_permutation[OF set_iteration_remdups,
      of "[dep_record ''a'' [''b'', ''zzz''], dep_record ''b'' []]"]
    set_iteration_remdups ev ids
  show ?thesis by simp
qed

text \<open>
  C2. When the dependency graph has a cycle, the planner returns exactly the sorted list
  of all record identifiers and prints the cycle warning. The condition is not fatal:
  \<open>main\<close>, run on references whose records have a cyclic graph, still produces its
  output document, with that build order.
\<close>

theorem topological_sort_cycle:
  assumes "set_iteration iter" and "\<not> acyclic (dependency_edges configs)"
  shows "topological_sort iter configs =
           ([CircularDependencyWarning], sorted_list_of_set (all_ids configs)) \<and>
         (tweakslist \<noteq> [] \<and> configs = analyze_all lower T (active_tweakslist lower T tweakslist) \<longrightarrow>
            (\<exists>messages out.
               main lower iter T (Some (Some tweakslist)) = Inr (messages, out) \<and>
               CircularDependencyWarning \<in> set messages \<and>
               out_build_order out = sorted_list_of_set (all_ids configs)))"
proof -
  have "length (kahn_result iter configs) \<noteq> card (all_ids configs)"
    using complete_acyclic[OF assms(1), of configs] kahn_result_complete_iff[OF assms(1), of configs]
      assms(2) by blast
  then have ts: "topological_sort iter configs =
           ([CircularDependencyWarning], sorted_list_of_set (all_ids configs))"
    by (simp add: topological_sort_eq)
  have "\<exists>messages out.
               main lower iter T (Some (Some tweakslist)) = Inr (messages, out) \<and>
               CircularDependencyWarning \<in> set messages \<and>
               out_build_order out = sorted_list_of_set (all_ids configs)"
    if "tweakslist \<noteq> []" "configs = analyze_all lower T (active_tweakslist lower T tweakslist)"
    using ts unfolding main_run[OF that(1)] that(2) by simp
  with ts show ?thesis by blast
qed

theorem topological_sort_cycle_witness:
  "set_iteration remdups \<and>
   \<not> acyclic (dependency_edges [dep_record ''x'' [''y''], dep_record ''y'' [''x'']]) \<and>
   topological_sort remdups [dep_record ''x'' [''y''], dep_record ''y'' [''x'']]
     = ([CircularDependencyWarning], [''x'', ''y'']) \<and>
   \<not> acyclic (dependency_edges (analyze_all ascii_lower tables_with_cycle
                  (active_tweakslist ascii_lower tables_with_cycle [''o/x'', ''o/y'']))) \<and>
   (\<exists>messages out.
      main ascii_lower remdups tables_with_cycle (Some (Some [''o/x'', ''o/y''])) = Inr (messages, out) \<and>
      CircularDependencyWarning \<in> set messages \<and>
      out_build_order out = [''x'', ''y''])"
proof -
  let ?cfgs = "[dep_record ''x'' [''y''], dep_record ''y'' [''x'']]"
  let ?res = "analyze_all ascii_lower tables_with_cycle (active_tweakslist ascii_lower tables_with_cycle [''o/x'', ''o/y''])"
  have cy: "\<not> acyclic (dependency_edges ?cfgs)" by code_simp
  have s: "sorted_list_of_set (all_ids ?cfgs) = [''x'', ''y'']" by code_simp
  have cy2: "\<not> acyclic (dependency_edges ?res)" by code_simp
  have s2: "sorted_list_of_set (all_ids ?res) = [''x'', ''y'']" by code_simp
  have ne: "[''o/x'', ''o/y''] \<noteq> []" by simp
  from topological_sort_cycle[OF set_iteration_remdups cy, of "[]" ascii_lower static_tables]
  have 1: "topological_sort remdups ?cfgs = ([CircularDependencyWarning], [''x'', ''y''])"
    unfolding s by blast
  from topological_sort_cycle[OF set_iteration_remdups cy2, of "[''o/x'', ''o/y'']" ascii_lower tables_with_cycle]
  have 2: "\<exists>messages out.
      main ascii_lower remdups tables_with_cycle (Some (Some [''o/x'', ''o/y''])) = Inr (messages, out) \<and>
      CircularDependencyWarning \<in> set messages \<and>
      out_build_order out = [''x'', ''y'']"
    unfolding s2 using ne by blast
  from set_iteration_remdups cy 1 cy2 2 show ?thesis by blast
qed

text \<open>
  C1, as stated, fails: for an acyclic dependency graph the ordering need not place an
  identifier after its dependencies. Record \<open>a\<close> depends on \<open>b\<close> and on \<open>c\<close>, and no
  record is \<open>c\<close>: the in-degree of \<open>a\<close> never reaches 0, the length check takes the
  fallback branch, and the sorted order puts \<open>a\<close> before \<open>b\<close>.
\<close>

theorem topological_sort_acyclic_counterexample:
  "set_iteration remdups \<and>
   acyclic (dependency_edges [dep_record ''a'' [''b'', ''c''], dep_record ''b'' []]) \<and>
   ''a'' \<in> all_ids [dep_record ''a'' [''b'', ''c''], dep_record ''b'' []] \<and>
   ''b'' \<in> graph_get (graph [dep_record ''a'' [''b'', ''c''], dep_record ''b'' []]) ''a'' \<and>
   topological_sort remdups [dep_record ''a'' [''b'', ''c''], dep_record ''b'' []]
     = ([CircularDependencyWarning], [''a'', ''b'']) \<and>
   \<not> precedes (snd (topological_sort remdups [dep_record ''a'' [''b'', ''c''], dep_record ''b'' []]))
         ''b'' ''a''"
proof -
  let ?cfgs = "[dep_record ''a'' [''b'', ''c''], dep_record ''b'' []]"
  have ac: "acyclic (dependency_edges ?cfgs)" by code_simp
  have a: "''a'' \<in> all_ids ?cfgs" by (simp add: all_ids_def dep_record_def)
  have g: "''b'' \<in> graph_get (graph ?cfgs) ''a''"
    by (simp add: graph_def graph_get_def dep_record_def deps_of_def)
  have ev: "topological_sort remdups ?cfgs = ([CircularDependencyWarning], [''a'', ''b''])"
    by code_simp
  have np: "\<not> precedes (snd (topological_sort remdups ?cfgs)) ''b'' ''a''"
    unfolding ev by (simp add: precedes_def)
  from set_iteration_remdups ac a g ev np show ?thesis by blast
qed

text \<open>
  C1, amended. When the dependency graph is acyclic and closed (every \<open>depends_on\<close>
  entry is the identifier of a record), the planner prints no warning, and its ordering
  holds every record identifier once and places every identifier strictly after each of
  its dependencies: those the graph holds for it, which are the \<open>depends_on\<close> entries
  of its record when no identifier is repeated.
\<close>

theorem topological_sort_acyclic_closed:
  assumes "set_iteration iter" and "acyclic (dependency_edges configs)"
    and "closed_graph configs"
  shows "fst (topological_sort iter configs) = [] \<and>
         distinct (snd (topological_sort iter configs)) \<and>
         set (snd (topological_sort iter configs)) = all_ids configs \<and>
         (\<forall>n \<in> all_ids configs. \<forall>m \<in> graph_get (graph configs) n.
            precedes (snd (topological_sort iter configs)) m n) \<and>
         (distinct (map cfg_id configs) \<longrightarrow>
            (\<forall>cfg \<in> set configs. \<forall>m \<in> set (deps_of cfg).
               precedes (snd (topological_sort iter configs)) m (cfg_id cfg)))"
proof -
  have full: "set (kahn_result iter configs) = all_ids configs"
    by (rule acyclic_closed_complete[OF assms])
  then have len: "length (kahn_result iter configs) = card (all_ids configs)"
    using kahn_result_complete_iff[OF assms(1)] by blast
  then have eq: "topological_sort iter configs = ([], kahn_result iter configs)"
    by (simp add: topological_sort_eq)
  have pr: "precedes (kahn_result iter configs) m n"
    if "n \<in> all_ids configs" "m \<in> graph_get (graph configs) n" for n m
    using dep_ordered_precedes[OF kahn_result_facts(1)[OF assms(1)] kahn_result_facts(3)[OF assms(1)]]
      that full by blast
  have "precedes (kahn_result iter configs) m (cfg_id cfg)"
    if "distinct (map cfg_id configs)" "cfg \<in> set configs" "m \<in> set (deps_of cfg)" for cfg m
  proof -
    from that(2) have "cfg_id cfg \<in> all_ids configs" by (simp add: all_ids_def)
    moreover from that have "m \<in> graph_get (graph configs) (cfg_id cfg)"
      by (simp add: graph_of_record)
    ultimately show ?thesis by (rule pr)
  qed
  with pr show ?thesis
    using full kahn_result_facts(1)[OF assms(1), of configs] by (simp add: eq)
qed

theorem topological_sort_acyclic_closed_witness:
  "set_iteration remdups \<and>
   acyclic (dependency_edges [dep_record ''a'' [], dep_record ''b'' [''a''], dep_record ''c'' [''a'']]) \<and>
   closed_graph [dep_record ''a'' [], dep_record ''b'' [''a''], dep_record ''c'' [''a'']] \<and>
   topological_sort remdups [dep_record ''a'' [], dep_record ''b'' [''a''], dep_record ''c'' [''a'']]
     = ([], [''a'', ''b'', ''c'']) \<and>
   graph_get (graph [dep_record ''a'' [], dep_record ''b'' [''a''], dep_record ''c'' [''a'']]) ''c''
     = {''a''} \<and>
   precedes (snd (topological_sort remdups
                    [dep_record ''a'' [], dep_record ''b'' [''a''], dep_record ''c'' [''a'']]))
     ''a'' ''c'' \<and>
   distinct (map cfg_id [dep_record ''a'' [], dep_record ''b'' [''a''], dep_record ''c'' [''a'']]) \<and>
   deps_of (dep_record ''b'' [''a'']) = [''a''] \<and>
   precedes (snd (topological_sort remdups
                    [dep_record ''a'' [], dep_record ''b'' [''a''], dep_record ''c'' [''a'']]))
     ''a'' (cfg_id (dep_record ''b'' [''a'']))"
proof -
  let ?cfgs = "[dep_record ''a'' [], dep_record ''b'' [''a''], dep_record ''c'' [''a'']]"
  have ac: "acyclic (dependency_edges ?cfgs)" by code_simp
  have cl: "closed_graph ?cfgs" by code_simp
  have ev: "topological_sort remdups ?cfgs = ([], [''a'', ''b'', ''c''])" by code_simp
  have g: "graph_get (graph ?cfgs) ''c'' = {''a''}"
    by (simp add: graph_def graph_get_def dep_record_def deps_of_def)
  have c: "''c'' \<in> all_ids ?cfgs" by (simp add: all_ids_def dep_record_def)
  have di: "distinct (map cfg_id ?cfgs)" by (simp add: dep_record_def)
  have de: "deps_of (dep_record ''b'' [''a'']) = [''a'']" by (simp add: dep_record_def deps_of_def)
  note t = topological_sort_acyclic_closed[OF set_iteration_remdups ac cl]
  from t c g have p1: "precedes (snd (topological_sort remdups ?cfgs)) ''a'' ''c''" by blast
  from t di have "\<forall>cfg \<in> set ?cfgs. \<forall>m \<in> set (deps_of cfg).
      precedes (snd (topological_sort remdups ?cfgs)) m (cfg_id cfg)" by blast
  then have p2: "precedes (snd (topological_sort remdups ?cfgs)) ''a''
                   (cfg_id (dep_record ''b'' [''a'']))"
    using de by simp
  from set_iteration_remdups ac cl ev g p1 di de p2 show ?thesis by blast
qed

text \<open>
  C3. Two runs of the planner on the same records give the same result, whatever the
  order in which the identifier set is iterated and the queue is filled: every pass of
  the loop sorts the queue and takes its least element.
\<close>

theorem topological_sort_deterministic:
  assumes "set_iteration iter" and "set_iteration iter'"
  shows "topological_sort iter configs = topological_sort iter' configs \<and>
         (queue \<noteq> [] \<longrightarrow>
            kahn_loop g ids d queue result =
              (let node = Min (set queue);
                   state = for_others g node ids d (remove1 node (sort queue))
               in kahn_loop g ids (fst state) (snd state) (result @ [node])))"
proof
  let ?ids = "iter (map cfg_id configs)" and ?ids' = "iter' (map cfg_id configs)"
  have d: "distinct ?ids" "distinct ?ids'" and s: "set ?ids = set ?ids'"
    using assms by (simp_all add: set_iteration_def)
  then have ms: "mset ?ids = mset ?ids'" by (simp add: set_eq_iff_mset_eq_distinct)
  have "kahn_result iter configs = kahn_result iter' configs"
    unfolding kahn_result_def
    by (rule kahn_loop_order_irrelevant[OF d s]) (simp add: ms)
  then show "topological_sort iter configs = topological_sort iter' configs"
    by (simp add: topological_sort_eq)
next
  show "queue \<noteq> [] \<longrightarrow>
            kahn_loop g ids d queue result =
              (let node = Min (set queue);
                   state = for_others g node ids d (remove1 node (sort queue))
               in kahn_loop g ids (fst state) (snd state) (result @ [node]))"
  proof
    assume ne: "queue \<noteq> []"
    then have "sort queue \<noteq> []" by (metis length_0_conv length_sort)
    then have "tl (sort queue) = remove1 (hd (sort queue)) (sort queue)"
      by (cases "sort queue") auto
    then show "kahn_loop g ids d queue result =
              (let node = Min (set queue);
                   state = for_others g node ids d (remove1 node (sort queue))
               in kahn_loop g ids (fst state) (snd state) (result @ [node]))"
      by (simp add: kahn_loop_Cons[OF ne] hd_sort_Min[OF ne] Let_def)
  qed
qed

theorem topological_sort_deterministic_witness:
  "set_iteration remdups \<and> set_iteration (rev \<circ> remdups) \<and>
   remdups (map cfg_id [dep_record ''c'' [''a''], dep_record ''b'' [''a''], dep_record ''a'' []])
     = [''c'', ''b'', ''a''] \<and>
   (rev \<circ> remdups) (map cfg_id [dep_record ''c'' [''a''], dep_record ''b'' [''a''], dep_record ''a'' []])
     = [''a'', ''b'', ''c''] \<and>
   topological_sort remdups [dep_record ''c'' [''a''], dep_record ''b'' [''a''], dep_record ''a'' []]
     = ([], [''a'', ''b'', ''c'']) \<and>
   topological_sort (rev \<circ> remdups)
       [dep_record ''c'' [''a''], dep_record ''b'' [''a''], dep_record ''a'' []]
     = ([], [''a'', ''b'', ''c'']) \<and>
   Min (set [''c'', ''b'']) = ''b'' \<and>
   kahn_loop Map.empty [] (\<lambda>n. 0) [''c'', ''b''] [''a''] = [''a'', ''b'', ''c'']"
proof -
  let ?cfgs = "[dep_record ''c'' [''a''], dep_record ''b'' [''a''], dep_record ''a'' []]"
  have o1: "remdups (map cfg_id ?cfgs) = [''c'', ''b'', ''a'']"
    and o2: "(rev \<circ> remdups) (map cfg_id ?cfgs) = [''a'', ''b'', ''c'']"
    by (simp_all add: dep_record_def)
  have ev: "topological_sort remdups ?cfgs = ([], [''a'', ''b'', ''c''])" by code_simp
  have m: "Min (set [''c'', ''b'']) = ''b''" by code_simp
  have st: "remove1 ''b'' (sort [''c'', ''b'']) = [''c'']" by code_simp
  have k: "kahn_loop Map.empty [] (\<lambda>n. 0) [''c''] [''a'', ''b''] = [''a'', ''b'', ''c'']"
    by code_simp
  note t = topological_sort_deterministic[OF set_iteration_remdups set_iteration_rev_remdups,
        of ?cfgs "[''c'', ''b'']" Map.empty "[]" "\<lambda>n. 0" "[''a'']"]
  from t have e: "topological_sort (rev \<circ> remdups) ?cfgs = ([], [''a'', ''b'', ''c''])"
    using ev by simp
  from t have "kahn_loop Map.empty [] (\<lambda>n. 0) [''c'', ''b''] [''a''] = [''a'', ''b'', ''c'']"
    by (simp add: m st k Let_def)
  with set_iteration_remdups set_iteration_rev_remdups o1 o2 ev e m show ?thesis by blast
qed

subsection \<open>The header aggregator\<close>

lemma fold_headers_union:
  "fold (\<lambda>cfg all_headers. all_headers \<union> set (headers_of cfg)) configs A
     = A \<union> (\<Union>cfg \<in> set configs. set (headers_of cfg))"
  by (induction configs arbitrary: A) auto

lemma header_config_set:
  "set (header_config T required) = {(h, l). h \<in> set required \<and> HEADER_REPOS T h = Some l}"
  by (auto simp: header_config_def split: option.splits)

lemma header_config_keys:
  "map fst (header_config T required) = filter (\<lambda>h. HEADER_REPOS T h \<noteq> None) required"
  by (induction required) (auto simp: header_config_def split: option.splits)

text \<open>
  C7. The header aggregator returns the sorted union of the \<open>headers\<close> fields of all
  records, without duplicates, and the header-to-location mapping holds exactly the
  collected headers that the registry knows, in that order; a header the registry does
  not know is left out.
\<close>

theorem header_aggregation:
  "sorted (collect_all_headers configs) \<and>
   distinct (collect_all_headers configs) \<and>
   set (collect_all_headers configs) = (\<Union>cfg \<in> set configs. set (headers_of cfg)) \<and>
   set (header_config T (collect_all_headers configs)) =
     {(h, l). h \<in> set (collect_all_headers configs) \<and> HEADER_REPOS T h = Some l} \<and>
   map fst (header_config T (collect_all_headers configs)) =
     filter (\<lambda>h. HEADER_REPOS T h \<noteq> None) (collect_all_headers configs)"
proof -
  have fin: "finite (\<Union>cfg \<in> set configs. set (headers_of cfg))" by simp
  have c: "collect_all_headers configs
             = sorted_list_of_set (\<Union>cfg \<in> set configs. set (headers_of cfg))"
    by (simp add: collect_all_headers_def fold_headers_union)
  have "sorted (collect_all_headers configs)" unfolding c by (rule sorted_sorted_list_of_set)
  moreover have "distinct (collect_all_headers configs)"
    unfolding c by (rule distinct_sorted_list_of_set)
  moreover have "set (collect_all_headers configs) = (\<Union>cfg \<in> set configs. set (headers_of cfg))"
    unfolding c using fin by (rule set_sorted_list_of_set)
  ultimately show ?thesis
    using header_config_set header_config_keys by blast
qed

theorem header_aggregation_witness:
  "collect_all_headers
     [dep_record ''a'' []\<lparr>headers := Some [''PSHeader'', ''Unknown'', ''PSHeader'']\<rparr>,
      dep_record ''b'' [], dep_record ''c'' []\<lparr>headers := None\<rparr>]
     = [''PSHeader'', ''Unknown'', ''YouTubeHeader''] \<and>
   HEADER_REPOS static_tables ''Unknown'' = None \<and>
   map fst (header_config static_tables
     (collect_all_headers
       [dep_record ''a'' []\<lparr>headers := Some [''PSHeader'', ''Unknown'', ''PSHeader'']\<rparr>,
        dep_record ''b'' [], dep_record ''c'' []\<lparr>headers := None\<rparr>]))
     = [''PSHeader'', ''YouTubeHeader'']"
proof -
  let ?cfgs = "[dep_record ''a'' []\<lparr>headers := Some [''PSHeader'', ''Unknown'', ''PSHeader'']\<rparr>,
      dep_record ''b'' [], dep_record ''c'' []\<lparr>headers := None\<rparr>]"
  have ev: "collect_all_headers ?cfgs = [''PSHeader'', ''Unknown'', ''YouTubeHeader'']"
    by code_simp
  have un: "HEADER_REPOS static_tables ''Unknown'' = None" by (simp add: static_tables_def)
  from header_aggregation[of ?cfgs static_tables]
  have "map fst (header_config static_tables (collect_all_headers ?cfgs))
          = filter (\<lambda>h. HEADER_REPOS static_tables h \<noteq> None) (collect_all_headers ?cfgs)"
    by blast
  also have "\<dots> = [''PSHeader'', ''YouTubeHeader'']"
    unfolding ev by (simp add: static_tables_def)
  finally show ?thesis using ev un by blast
qed

subsection \<open>The script\<close>

text \<open>
  C5. The references whose identifier is in the exclusion table are removed before
  resolution: the active list of the output is the input without them, the records are
  those of the active list, and no skipped identifier is the identifier of a record or
  stands in the build order; nor in a \<open>depends_on\<close> list, when no dependency list of
  the tables names one.
\<close>

theorem skipped_never_in_output:
  assumes it: "set_iteration iter"
    and run: "main lower iter T config_file = Inr (messages, out)"
  shows "(\<exists>tweakslist. config_file = Some (Some tweakslist) \<and>
            out_tweakslist out =
              filter (\<lambda>repo_ref. SKIPPED_TWEAKS T (make_id lower repo_ref) = None) tweakslist) \<and>
         map cfg_id (out_config out) = map (make_id lower) (out_tweakslist out) \<and>
         map repo (out_config out) = out_tweakslist out \<and>
         (\<forall>repo_ref \<in> set (out_tweakslist out). SKIPPED_TWEAKS T (make_id lower repo_ref) = None) \<and>
         (\<forall>cfg \<in> set (out_config out). SKIPPED_TWEAKS T (cfg_id cfg) = None) \<and>
         (\<forall>tweak_id \<in> set (out_build_order out). SKIPPED_TWEAKS T tweak_id = None) \<and>
         (dependencies_active T \<longrightarrow>
            (\<forall>cfg \<in> set (out_config out). \<forall>dep \<in> set (deps_of cfg).
               SKIPPED_TWEAKS T dep = None))"
proof -
  from main_Inr_input[OF run] obtain tweakslist
    where inp: "config_file = Some (Some tweakslist)" and ne: "tweakslist \<noteq> []" by blast
  let ?active = "active_tweakslist lower T tweakslist"
  let ?configs = "analyze_all lower T ?active"
  from run have out: "out_tweakslist out = ?active" "out_config out = ?configs"
    "out_build_order out = snd (topological_sort iter ?configs)"
    unfolding inp main_run[OF ne] by auto
  have act: "\<And>r. r \<in> set ?active \<Longrightarrow> SKIPPED_TWEAKS T (make_id lower r) = None"
    by (simp add: active_tweakslist_def)
  have c1: "\<exists>tweakslist. config_file = Some (Some tweakslist) \<and>
            out_tweakslist out =
              filter (\<lambda>repo_ref. SKIPPED_TWEAKS T (make_id lower repo_ref) = None) tweakslist"
    using inp out(1) by (simp add: active_tweakslist_def)
  have c2: "map cfg_id (out_config out) = map (make_id lower) (out_tweakslist out)"
    and c3: "map repo (out_config out) = out_tweakslist out"
    by (simp_all add: out analyze_all_def analyze_tweak_id analyze_tweak_repo comp_def)
  have c4: "\<forall>repo_ref \<in> set (out_tweakslist out). SKIPPED_TWEAKS T (make_id lower repo_ref) = None"
    using act by (simp add: out)
  have ids: "all_ids ?configs = make_id lower ` set ?active" by (rule all_ids_analyze_all)
  have c5: "\<forall>cfg \<in> set (out_config out). SKIPPED_TWEAKS T (cfg_id cfg) = None"
    using act by (auto simp: out analyze_all_def analyze_tweak_id)
  have "set (out_build_order out) = all_ids ?configs"
    using topological_sort_set[OF it, of ?configs] by (simp add: out)
  then have c6: "\<forall>tweak_id \<in> set (out_build_order out). SKIPPED_TWEAKS T tweak_id = None"
    using act ids by auto
  have c7: "dependencies_active T \<longrightarrow>
            (\<forall>cfg \<in> set (out_config out). \<forall>dep \<in> set (deps_of cfg).
               SKIPPED_TWEAKS T dep = None)"
  proof (intro impI ballI)
    fix cfg dep
    assume da: "dependencies_active T" and cfg: "cfg \<in> set (out_config out)"
      and dep: "dep \<in> set (deps_of cfg)"
    from cfg obtain r where "cfg = analyze_tweak lower T r (all_tweaks_of lower ?active)"
      by (auto simp: out analyze_all_def)
    with dep obtain deps where "KNOWN_DEPENDENCIES T (make_id lower r) = Some deps" "dep \<in> set deps"
      by (cases "KNOWN_DEPENDENCIES T (make_id lower r)") (auto simp: analyze_tweak_deps)
    with da show "SKIPPED_TWEAKS T dep = None" unfolding dependencies_active_def by blast
  qed
  from c1 c2 c3 c4 c5 c6 c7 show ?thesis by blast
qed

theorem skipped_never_in_output_witness:
  "set_iteration remdups \<and>
   dependencies_active static_tables \<and>
   SKIPPED_TWEAKS static_tables (make_id ascii_lower ''arichornlover/YouTimeStamp'') \<noteq> None \<and>
   main ascii_lower remdups static_tables
     (Some (Some [''PoomSmart/YouPiP'', ''arichornlover/YouTimeStamp'', ''PoomSmart/YTVideoOverlay'']))
   = Inr ([Skipping ''arichornlover/YouTimeStamp''
             ''incompatible with current YouTubeHeader (tintImage:color: and createButton:accessibilityLabel:selector: removed)''],
          \<lparr> out_tweakslist = [''PoomSmart/YouPiP'', ''PoomSmart/YTVideoOverlay''],
            out_config =
              [\<lparr> cfg_id = ''youpip'', repo = ''PoomSmart/YouPiP'', fetch = ''build'',
                 build_cmd = Some ''make clean package DEBUG=0 FINALPACKAGE=1'',
                 deb_filter = None, deb_exclude = None,
                 depends_on = Some [''ytvideooverlay''], pre_build_cmd = None,
                 headers = Some [''YouTubeHeader''] \<rparr>,
               \<lparr> cfg_id = ''ytvideooverlay'', repo = ''PoomSmart/YTVideoOverlay'',
                 fetch = ''build'',
                 build_cmd = Some ''make clean package DEBUG=0 FINALPACKAGE=1'',
                 deb_filter = None, deb_exclude = None, depends_on = None,
                 pre_build_cmd = None, headers = Some [''YouTubeHeader''] \<rparr>],
            out_build_order = [''ytvideooverlay'', ''youpip''],
            out_headers =
              [(''YouTubeHeader'', ''https://github.com/PoomSmart/YouTubeHeader.git'')],
            out_metadata =
              \<lparr> total_tweaks = 2, successfully_analyzed = 2,
                required_headers = [''YouTubeHeader''] \<rparr> \<rparr>) \<and>
   SKIPPED_TWEAKS static_tables ''ytvideooverlay'' = None \<and>
   SKIPPED_TWEAKS static_tables ''youpip'' = None"
proof -
  let ?input = "Some (Some [''PoomSmart/YouPiP'', ''arichornlover/YouTimeStamp'',
                            ''PoomSmart/YTVideoOverlay''])"
  let ?out = "\<lparr> out_tweakslist = [''PoomSmart/YouPiP'', ''PoomSmart/YTVideoOverlay''],
            out_config =
              [\<lparr> cfg_id = ''youpip'', repo = ''PoomSmart/YouPiP'', fetch = ''build'',
                 build_cmd = Some ''make clean package DEBUG=0 FINALPACKAGE=1'',
                 deb_filter = None, deb_exclude = None,
                 depends_on = Some [''ytvideooverlay''], pre_build_cmd = None,
                 headers = Some [''YouTubeHeader''] \<rparr>,
               \<lparr> cfg_id = ''ytvideooverlay'', repo = ''PoomSmart/YTVideoOverlay'',
                 fetch = ''build'',
                 build_cmd = Some ''make clean package DEBUG=0 FINALPACKAGE=1'',
                 deb_filter = None, deb_exclude = None, depends_on = None,
                 pre_build_cmd = None, headers = Some [''YouTubeHeader''] \<rparr>],
            out_build_order = [''ytvideooverlay'', ''youpip''],
            out_headers =
              [(''YouTubeHeader'', ''https://github.com/PoomSmart/YouTubeHeader.git'')],
            out_metadata =
              \<lparr> total_tweaks = 2, successfully_analyzed = 2,
                required_headers = [''YouTubeHeader''] \<rparr> \<rparr>"
  have da: "dependencies_active static_tables"
    by (simp add: dependencies_active_def static_tables_def)
  have id: "make_id ascii_lower ''arichornlover/YouTimeStamp'' = ''youtimestamp''" by code_simp
  have sk: "SKIPPED_TWEAKS static_tables (make_id ascii_lower ''arichornlover/YouTimeStamp'') \<noteq> None"
    unfolding id by (simp add: static_tables_def)
  have ev: "main ascii_lower remdups static_tables ?input
     = Inr ([Skipping ''arichornlover/YouTimeStamp''
             ''incompatible with current YouTubeHeader (tintImage:color: and createButton:accessibilityLabel:selector: removed)''],
            ?out)"
    by code_simp
  note t = skipped_never_in_output[OF set_iteration_remdups ev]
  from t have "\<forall>tweak_id \<in> set (out_build_order ?out). SKIPPED_TWEAKS static_tables tweak_id = None"
    by blast
  then have y: "SKIPPED_TWEAKS static_tables ''youpip'' = None" by simp
  from t da have "\<forall>cfg \<in> set (out_config ?out). \<forall>dep \<in> set (deps_of cfg).
      SKIPPED_TWEAKS static_tables dep = None" by blast
  then have v: "SKIPPED_TWEAKS static_tables ''ytvideooverlay'' = None"
    by (simp add: deps_of_def)
  from set_iteration_remdups da sk ev v y show ?thesis by blast
qed

end
